theory Spec2Isabelle
  imports Complex_Main
begin

section \<open>The circuit breaker\<close>

text \<open>
  The class \<^verbatim>\<open>CircuitBreaker\<close> of the combined gateway. JavaScript numbers that hold
  counters and millisecond timestamps are integers here; every read of
  \<^verbatim>\<open>Date.now()\<close> is an argument \<open>now\<close> of the function that reads it. The
  entries of \<^verbatim>\<open>metrics.stateChanges\<close> keep the state they record; their display
  timestamp (\<^verbatim>\<open>new Date()\<close>, a clock read of its own) is left out.
\<close>

datatype circuit_state = CLOSED | OPEN | HALF_OPEN

record cb_metrics =
  totalAttempts :: int
  totalFailures :: int
  totalRejections :: int
  stateChanges :: "circuit_state list"

record circuit_breaker =
  cb_name :: string
  state :: circuit_state
  failureCount :: int
  failureThreshold :: int
  nextAttempt :: int
  timeout :: int
  successCount :: int
  cb_metrics :: cb_metrics

text \<open>The constructor \<^verbatim>\<open>new CircuitBreaker(name, threshold, timeout)\<close>, run at time \<open>now\<close>.\<close>

definition new_CircuitBreaker :: "string \<Rightarrow> int \<Rightarrow> int \<Rightarrow> int \<Rightarrow> circuit_breaker" where
  "new_CircuitBreaker nm threshold tmo now =
     \<lparr>cb_name = nm, state = CLOSED, failureCount = 0, failureThreshold = threshold,
      nextAttempt = now, timeout = tmo, successCount = 0,
      cb_metrics = \<lparr>totalAttempts = 0, totalFailures = 0, totalRejections = 0,
                    stateChanges = []\<rparr>\<rparr>"

definition changeState :: "circuit_state \<Rightarrow> circuit_breaker \<Rightarrow> circuit_breaker" where
  "changeState newState c =
     c\<lparr>state := newState,
       cb_metrics := (cb_metrics c)\<lparr>stateChanges := stateChanges (cb_metrics c) @ [newState]\<rparr>\<rparr>"

definition onSuccess :: "circuit_breaker \<Rightarrow> circuit_breaker" where
  "onSuccess c =
     (let c1 = c\<lparr>failureCount := 0\<rparr>
      in if state c1 = HALF_OPEN then changeState CLOSED c1 else c1)"

definition onFailure :: "int \<Rightarrow> circuit_breaker \<Rightarrow> circuit_breaker" where
  "onFailure now c =
     (let c1 = c\<lparr>cb_metrics := (cb_metrics c)\<lparr>totalFailures := totalFailures (cb_metrics c) + 1\<rparr>\<rparr>;
          c2 = c1\<lparr>failureCount := failureCount c1 + 1\<rparr>
      in if failureThreshold c2 \<le> failureCount c2
         then (changeState OPEN c2)\<lparr>nextAttempt := now + timeout c2\<rparr>
         else c2)"

text \<open>
  \<^verbatim>\<open>CircuitBreaker.execute(fn)\<close> is an async function: it runs without interruption up
  to \<^verbatim>\<open>await fn()\<close>, and its continuation runs once the promise of \<open>fn\<close> has
  settled. \<open>cb_execute_begin\<close> is the first part. The wrapped function is called inside
  it, so \<open>fn\<close> is given as what that call does before it first suspends: from the
  state \<open>w\<close> it works on, a handle \<open>p\<close> of the pending operation and the new state.
  \<open>check\<close> is the \<^verbatim>\<open>if\<close> block on the state: \<open>Inl\<close> where it throws the circuit-open
  error, and then \<open>fn\<close> is not applied; \<open>Inr\<close> where control goes on to the
  \<^verbatim>\<open>try\<close> block.
\<close>

datatype cb_error = CircuitOpenError

definition cb_execute_begin ::
  "int \<Rightarrow> ('w \<Rightarrow> 'p \<times> 'w) \<Rightarrow> circuit_breaker \<times> 'w \<Rightarrow> (cb_error + 'p) \<times> circuit_breaker \<times> 'w" where
  "cb_execute_begin now fn cw =
     (let c = fst cw; w = snd cw;
          c1 = c\<lparr>cb_metrics := (cb_metrics c)\<lparr>totalAttempts := totalAttempts (cb_metrics c) + 1\<rparr>\<rparr>;
          check = (if state c1 = OPEN
                   then if now < nextAttempt c1
                        then Inl (c1\<lparr>cb_metrics := (cb_metrics c1)
                                    \<lparr>totalRejections := totalRejections (cb_metrics c1) + 1\<rparr>\<rparr>)
                        else Inr (changeState HALF_OPEN c1)
                   else Inr c1)
      in case check of
           Inl c2 \<Rightarrow> (Inl CircuitOpenError, c2, w)
         | Inr c2 \<Rightarrow> (let r = fn w in (Inr (fst r), c2, snd r)))"

text \<open>
  The continuation of \<^verbatim>\<open>execute\<close>: the \<^verbatim>\<open>try\<close> branch calls \<open>onSuccess\<close> when the
  promise of \<open>fn\<close> was fulfilled (\<open>ok\<close>), the \<^verbatim>\<open>catch\<close> branch calls \<open>onFailure\<close>
  when it was rejected, whatever the error.
\<close>

definition cb_execute_end :: "int \<Rightarrow> bool \<Rightarrow> circuit_breaker \<Rightarrow> circuit_breaker" where
  "cb_execute_end now ok c = (if ok then onSuccess c else onFailure now c)"

section \<open>The bulkhead\<close>

text \<open>
  The class \<^verbatim>\<open>Bulkhead\<close>, the same in the bulkhead gateway and in the combined one
  (the two differ in the text of the error message only). \<^verbatim>\<open>queuedRequests\<close> holds
  the \<^verbatim>\<open>resolve\<close> functions of the suspended callers, first come first; each is
  named here by the number of the call that pushed it. \<^verbatim>\<open>averageResponseTime\<close> is
  the double that the division of the code stores, as the real number it denotes.
\<close>

record metrics =
  totalRequests :: int
  successfulRequests :: int
  failedRequests :: int
  rejectedRequests :: int
  averageResponseTime :: real
  responseTimes :: "int list"

record bulkhead =
  bh_name :: string
  maxConcurrent :: int
  maxQueue :: int
  activeRequests :: int
  queuedRequests :: "nat list"
  metrics :: metrics

definition new_Bulkhead :: "string \<Rightarrow> int \<Rightarrow> int \<Rightarrow> bulkhead" where
  "new_Bulkhead nm mc mq =
     \<lparr>bh_name = nm, maxConcurrent = mc, maxQueue = mq, activeRequests = 0, queuedRequests = [],
      metrics = \<lparr>totalRequests = 0, successfulRequests = 0, failedRequests = 0,
                 rejectedRequests = 0, averageResponseTime = 0, responseTimes = []\<rparr>\<rparr>"

text \<open>
  \<^verbatim>\<open>Bulkhead.execute(fn)\<close> is an async function with two suspension points, the
  \<^verbatim>\<open>await\<close> on the promise whose resolver is queued and \<^verbatim>\<open>await fn()\<close>, so it
  runs as up to three parts, each without interruption:
  \<^item> \<open>bh_execute_call\<close>, from the entry: it counts the request, then throws the
    at-capacity error (\<open>Rejected\<close>), or pushes the caller's resolver and suspends
    (\<open>Enqueued\<close>), or increments \<^verbatim>\<open>activeRequests\<close> and calls \<open>fn\<close> (\<open>Admitted\<close>);
  \<^item> \<open>bh_execute_resume\<close>, for a caller that was queued, once its promise has been
    resolved and its continuation is run: it increments \<^verbatim>\<open>activeRequests\<close> and
    calls \<open>fn\<close>;
  \<^item> \<open>bh_execute_finish\<close>, once the promise of \<open>fn\<close> has settled, fulfilled (\<open>ok\<close>)
    or rejected, with \<open>responseTime\<close> the difference of the two clock reads: the
    \<^verbatim>\<open>try\<close> or the \<^verbatim>\<open>catch\<close> branch, then the \<^verbatim>\<open>finally\<close> block, which shifts the
    queue and calls the resolver it found. The resolver is returned: calling it
    schedules the continuation of that caller, it does not run it.
  Both routes pass an async function as \<open>fn\<close>, so \<open>fn()\<close> returns a promise and
  does not throw.
\<close>

datatype admission = Rejected | Enqueued | Admitted

definition bh_execute_call :: "nat \<Rightarrow> bulkhead \<Rightarrow> admission \<times> bulkhead" where
  "bh_execute_call k b =
     (let b1 = b\<lparr>metrics := (metrics b)\<lparr>totalRequests := totalRequests (metrics b) + 1\<rparr>\<rparr>
      in if maxConcurrent b1 \<le> activeRequests b1 \<and> maxQueue b1 \<le> int (length (queuedRequests b1))
         then (Rejected,
               b1\<lparr>metrics := (metrics b1)\<lparr>rejectedRequests := rejectedRequests (metrics b1) + 1\<rparr>\<rparr>)
         else if maxConcurrent b1 \<le> activeRequests b1
         then (Enqueued, b1\<lparr>queuedRequests := queuedRequests b1 @ [k]\<rparr>)
         else (Admitted, b1\<lparr>activeRequests := activeRequests b1 + 1\<rparr>))"

definition bh_execute_resume :: "bulkhead \<Rightarrow> bulkhead" where
  "bh_execute_resume b = b\<lparr>activeRequests := activeRequests b + 1\<rparr>"

text \<open>
  The division \<^verbatim>\<open>sum / length\<close> of a sum of integer samples by their number is a
  division of doubles: the quotient rounded to the nearest double, ties to the even
  mantissa. \<open>js_divide s n\<close> is that double for an integer \<open>s\<close> and a count \<open>n\<close>, both
  below \<open>2 ^ 53\<close> in size as the sums and lengths of the program are: \<open>e\<close> is the binary
  exponent of the quotient, found from the bit lengths of the operands, and \<open>m\<close> the
  quotient scaled to 53 bits and rounded. The count is never 0 where the code divides
  (a sample has just been pushed).
\<close>

fun bit_length :: "nat \<Rightarrow> nat" where
  "bit_length n = (if n = 0 then 0 else Suc (bit_length (n div 2)))"

declare bit_length.simps [simp del]

definition round_half_even :: "int \<Rightarrow> int \<Rightarrow> int" where
  "round_half_even num den =
     (let q = num div den; r = num mod den
      in if 2 * r < den then q
         else if den < 2 * r then q + 1
         else if even q then q else q + 1)"

definition js_divide :: "int \<Rightarrow> nat \<Rightarrow> real" where
  "js_divide s n =
     (if s = 0 \<or> n = 0 then 0
      else let a = \<bar>s\<bar>;
               d = int (bit_length (nat a)) - int (bit_length n);
               e = (if int n * 2 ^ nat d \<le> a * 2 ^ nat (- d) then d else d - 1);
               down = nat (52 - e);
               up = nat (e - 52);
               m = round_half_even (a * 2 ^ down) (int n * 2 ^ up)
           in real_of_int (sgn s * m * 2 ^ up) / 2 ^ down)"

definition record_success :: "int \<Rightarrow> metrics \<Rightarrow> metrics" where
  "record_success responseTime m =
     (let m1 = m\<lparr>successfulRequests := successfulRequests m + 1\<rparr>;
          m2 = m1\<lparr>responseTimes := responseTimes m1 @ [responseTime]\<rparr>
      in m2\<lparr>averageResponseTime :=
              js_divide (foldl (+) 0 (responseTimes m2)) (length (responseTimes m2))\<rparr>)"

definition bh_execute_finish :: "bool \<Rightarrow> int \<Rightarrow> bulkhead \<Rightarrow> nat option \<times> bulkhead" where
  "bh_execute_finish ok responseTime b =
     (let b1 = (if ok then b\<lparr>metrics := record_success responseTime (metrics b)\<rparr>
                else b\<lparr>metrics := (metrics b)\<lparr>failedRequests := failedRequests (metrics b) + 1\<rparr>\<rparr>);
          b2 = b1\<lparr>activeRequests := activeRequests b1 - 1\<rparr>
      in case queuedRequests b2 of
           [] \<Rightarrow> (None, b2)
         | r # rs \<Rightarrow> (Some r, b2\<lparr>queuedRequests := rs\<rparr>))"

subsection \<open>The calls in flight\<close>

text \<open>
  The parts of different calls interleave. Beside the object, the state of a bulkhead in
  use holds the suspended calls: \<open>woken\<close>, the queued callers whose resolver has been
  called and whose continuation waits in the microtask queue, which runs them in the
  order in which they were resolved; and \<open>running\<close>, the calls suspended in
  \<^verbatim>\<open>await fn()\<close>, each with its \<^verbatim>\<open>startTime\<close>. An event is one part of one call:
  \<open>Call k now\<close> is call \<open>k\<close> entering \<^verbatim>\<open>execute\<close>, \<open>Resume now\<close> the continuation of the
  first woken caller, \<open>Settle k ok now\<close> the continuation of call \<open>k\<close> after its
  \<open>fn\<close> settled. \<open>step\<close> is \<open>None\<close> for an event that cannot happen: no caller
  woken, or a call that is not running.
\<close>

record bh_system =
  bh :: bulkhead
  woken :: "nat list"
  running :: "(nat \<times> int) list"

datatype event = Call nat int | Resume int | Settle nat bool int

datatype outcome = Reject nat | Queue nat | Start nat | Resumed nat | Finish nat bool

definition new_system :: "string \<Rightarrow> int \<Rightarrow> int \<Rightarrow> bh_system" where
  "new_system nm mc mq = \<lparr>bh = new_Bulkhead nm mc mq, woken = [], running = []\<rparr>"

fun remove_call :: "nat \<Rightarrow> (nat \<times> 'a) list \<Rightarrow> (nat \<times> 'a) list" where
  "remove_call k [] = []"
| "remove_call k (p # ps) = (if fst p = k then ps else p # remove_call k ps)"

definition call :: "nat \<Rightarrow> int \<Rightarrow> bh_system \<Rightarrow> outcome \<times> bh_system" where
  "call k now s =
     (case bh_execute_call k (bh s) of
        (Rejected, b) \<Rightarrow> (Reject k, s\<lparr>bh := b\<rparr>)
      | (Enqueued, b) \<Rightarrow> (Queue k, s\<lparr>bh := b\<rparr>)
      | (Admitted, b) \<Rightarrow> (Start k, s\<lparr>bh := b, running := running s @ [(k, now)]\<rparr>))"

fun step :: "event \<Rightarrow> bh_system \<Rightarrow> (outcome \<times> bh_system) option" where
  "step (Call k now) s = Some (call k now s)"
| "step (Resume now) s =
     (case woken s of
        [] \<Rightarrow> None
      | k # ks \<Rightarrow> Some (Resumed k, s\<lparr>bh := bh_execute_resume (bh s), woken := ks,
                                     running := running s @ [(k, now)]\<rparr>))"
| "step (Settle k ok now) s =
     (case map_of (running s) k of
        None \<Rightarrow> None
      | Some startTime \<Rightarrow>
          (case bh_execute_finish ok (now - startTime) (bh s) of
             (r, b) \<Rightarrow> Some (Finish k ok,
                             s\<lparr>bh := b, running := remove_call k (running s),
                               woken := woken s @ (case r of None \<Rightarrow> [] | Some j \<Rightarrow> [j])\<rparr>)))"

fun run :: "event list \<Rightarrow> bh_system \<Rightarrow> (outcome list \<times> bh_system) option" where
  "run [] s = Some ([], s)"
| "run (e # es) s =
     (case step e s of
        None \<Rightarrow> None
      | Some (out, s1) \<Rightarrow>
          (case run es s1 of None \<Rightarrow> None | Some (outs, s2) \<Rightarrow> Some (out # outs, s2)))"

text \<open>The callers that were queued, and those that were resumed, each in order of time.\<close>

fun enqueued :: "outcome list \<Rightarrow> nat list" where
  "enqueued [] = []"
| "enqueued (Queue k # outs) = k # enqueued outs"
| "enqueued (out # outs) = enqueued outs"

fun resumed :: "outcome list \<Rightarrow> nat list" where
  "resumed [] = []"
| "resumed (Resumed k # outs) = k # resumed outs"
| "resumed (out # outs) = resumed outs"

text \<open>
  A schedule in which every call enters \<^verbatim>\<open>execute\<close> while no woken caller waits for
  its continuation: so it is when every call is made from an event-loop callback of its
  own (an incoming request), since the microtask queue is run until empty after each
  callback.
\<close>

fun calls_find_none_woken :: "event list \<Rightarrow> bh_system \<Rightarrow> bool" where
  "calls_find_none_woken [] s = True"
| "calls_find_none_woken (e # es) s =
     ((case e of Call k now \<Rightarrow> woken s = [] | Resume now \<Rightarrow> True | Settle k ok now \<Rightarrow> True)
      \<and> (case step e s of None \<Rightarrow> True | Some (out, s1) \<Rightarrow> calls_find_none_woken es s1))"

section \<open>The gateway: breaker around bulkhead\<close>

text \<open>
  A route of the combined gateway runs
  \<^verbatim>\<open>breaker.execute(async () => await bulkhead.execute(async () => await axios.get(..)))\<close>.
  The call of the bulkhead is made inside the first part of the breaker's
  \<^verbatim>\<open>execute\<close>; both read the clock there within the same run, and share \<open>now\<close>.
  \<open>settled\<close> holds the calls whose inner promise, that of \<^verbatim>\<open>bulkhead.execute\<close>, has
  settled (fulfilled or not) while the continuation of the breaker's \<^verbatim>\<open>execute\<close>
  has not run yet. That promise is rejected at once when the bulkhead throws its
  at-capacity error. The events: \<open>Request k now\<close>, a request enters the route;
  \<open>Wake now\<close>, the first woken caller of the bulkhead resumes; \<open>Upstream k ok now\<close>,
  the upstream call of request \<open>k\<close> settles and the bulkhead's continuation runs;
  \<open>Outcome k now\<close>, the breaker's continuation for request \<open>k\<close> runs.
\<close>

record gateway =
  breaker :: circuit_breaker
  pool :: bh_system
  settled :: "(nat \<times> bool) list"

datatype gw_event = Request nat int | Wake int | Upstream nat bool int | Outcome nat int

datatype gw_outcome = CircuitOpen | Passed outcome | Recorded bool

definition new_gateway :: "circuit_breaker \<Rightarrow> bulkhead \<Rightarrow> gateway" where
  "new_gateway c b = \<lparr>breaker = c, pool = \<lparr>bh = b, woken = [], running = []\<rparr>, settled = []\<rparr>"

text \<open>The instances the combined gateway creates for the slow service, at time \<open>now\<close>.\<close>

definition slow_gateway :: "int \<Rightarrow> gateway" where
  "slow_gateway now =
     new_gateway (new_CircuitBreaker ''slow-service'' 3 20000 now) (new_Bulkhead ''slow-service'' 5 10)"

fun gw_step :: "gw_event \<Rightarrow> gateway \<Rightarrow> (gw_outcome \<times> gateway) option" where
  "gw_step (Request k now) g =
     (case cb_execute_begin now (call k now) (breaker g, pool g) of
        (Inl CircuitOpenError, c, p) \<Rightarrow> Some (CircuitOpen, g\<lparr>breaker := c, pool := p\<rparr>)
      | (Inr out, c, p) \<Rightarrow>
          Some (Passed out,
                g\<lparr>breaker := c, pool := p,
                  settled := settled g @ (if out = Reject k then [(k, False)] else [])\<rparr>))"
| "gw_step (Wake now) g =
     (case step (Resume now) (pool g) of
        None \<Rightarrow> None
      | Some (out, p) \<Rightarrow> Some (Passed out, g\<lparr>pool := p\<rparr>))"
| "gw_step (Upstream k ok now) g =
     (case step (Settle k ok now) (pool g) of
        None \<Rightarrow> None
      | Some (out, p) \<Rightarrow> Some (Passed out, g\<lparr>pool := p, settled := settled g @ [(k, ok)]\<rparr>))"
| "gw_step (Outcome k now) g =
     (case map_of (settled g) k of
        None \<Rightarrow> None
      | Some ok \<Rightarrow>
          Some (Recorded ok,
                g\<lparr>breaker := cb_execute_end now ok (breaker g),
                  settled := remove_call k (settled g)\<rparr>))"

fun gw_run :: "gw_event list \<Rightarrow> gateway \<Rightarrow> (gw_outcome list \<times> gateway) option" where
  "gw_run [] g = Some ([], g)"
| "gw_run (e # es) g =
     (case gw_step e g of
        None \<Rightarrow> None
      | Some (out, g1) \<Rightarrow>
          (case gw_run es g1 of None \<Rightarrow> None | Some (outs, g2) \<Rightarrow> Some (out # outs, g2)))"

section \<open>Properties of the circuit breaker\<close>

lemma onFailure_below:
  "failureCount c + 1 < failureThreshold c \<Longrightarrow>
   onFailure now c =
     c\<lparr>cb_metrics := (cb_metrics c)\<lparr>totalFailures := totalFailures (cb_metrics c) + 1\<rparr>,
       failureCount := failureCount c + 1\<rparr>"
  by (simp add: onFailure_def Let_def)

lemma onFailure_reach:
  "failureThreshold c \<le> failureCount c + 1 \<Longrightarrow>
   state (onFailure now c) = OPEN \<and> nextAttempt (onFailure now c) = now + timeout c
   \<and> failureCount (onFailure now c) = failureCount c + 1"
  by (simp add: onFailure_def Let_def changeState_def)

lemma fold_onFailure_below:
  "int (length ts) + failureCount c < failureThreshold c \<Longrightarrow>
   state (fold onFailure ts c) = state c
   \<and> failureCount (fold onFailure ts c) = failureCount c + int (length ts)
   \<and> failureThreshold (fold onFailure ts c) = failureThreshold c
   \<and> timeout (fold onFailure ts c) = timeout c"
proof (induction ts arbitrary: c)
  case Nil
  then show ?case by simp
next
  case (Cons t ts)
  have below: "failureCount c + 1 < failureThreshold c"
    using Cons.prems by simp
  let ?c = "onFailure t c"
  have step: "state ?c = state c" "failureCount ?c = failureCount c + 1"
    "failureThreshold ?c = failureThreshold c" "timeout ?c = timeout c"
    by (simp_all add: onFailure_below [OF below])
  have "int (length ts) + failureCount ?c < failureThreshold ?c"
    using Cons.prems step by simp
  from Cons.IH [OF this] show ?case
    using step by simp
qed

text \<open>
  C4. From the closed state with no failure counted, and a positive threshold: fewer
  failures than the threshold, recorded one after the other, leave the circuit closed
  and count one each; the failure that completes the threshold opens the circuit and
  sets \<open>nextAttempt\<close> to the time of that failure plus the timeout; a success in the
  closed state leaves the count at 0 and the circuit closed.
\<close>

theorem closed_failures_open_at_threshold:
  assumes "state c = CLOSED" and "failureCount c = 0" and "1 \<le> failureThreshold c"
  shows "(int (length ts) < failureThreshold c \<longrightarrow>
            state (fold onFailure ts c) = CLOSED
            \<and> failureCount (fold onFailure ts c) = int (length ts))
       \<and> (int (length ts) + 1 = failureThreshold c \<longrightarrow>
            state (fold onFailure (ts @ [t]) c) = OPEN
            \<and> nextAttempt (fold onFailure (ts @ [t]) c) = t + timeout c)
       \<and> (state d = CLOSED \<longrightarrow> state (onSuccess d) = CLOSED \<and> failureCount (onSuccess d) = 0)"
proof (intro conjI impI)
  assume "int (length ts) < failureThreshold c"
  then have "int (length ts) + failureCount c < failureThreshold c"
    using assms(2) by simp
  from fold_onFailure_below [OF this]
  show "state (fold onFailure ts c) = CLOSED"
    and "failureCount (fold onFailure ts c) = int (length ts)"
    using assms by simp_all
next
  assume last: "int (length ts) + 1 = failureThreshold c"
  then have "int (length ts) + failureCount c < failureThreshold c"
    using assms(2) by simp
  from fold_onFailure_below [OF this]
  have mid: "failureCount (fold onFailure ts c) = int (length ts)"
    "failureThreshold (fold onFailure ts c) = failureThreshold c"
    "timeout (fold onFailure ts c) = timeout c"
    using assms(2) by simp_all
  have "failureThreshold (fold onFailure ts c) \<le> failureCount (fold onFailure ts c) + 1"
    using mid last by simp
  from onFailure_reach [OF this, of t]
  show "state (fold onFailure (ts @ [t]) c) = OPEN"
    and "nextAttempt (fold onFailure (ts @ [t]) c) = t + timeout c"
    using mid by simp_all
next
  assume "state d = CLOSED"
  then show "state (onSuccess d) = CLOSED" and "failureCount (onSuccess d) = 0"
    by (simp_all add: onSuccess_def Let_def)
qed

theorem closed_failures_open_at_threshold_witness:
  "state (new_CircuitBreaker ''slow-service'' 3 20000 0) = CLOSED
   \<and> failureCount (new_CircuitBreaker ''slow-service'' 3 20000 0) = 0
   \<and> 1 \<le> failureThreshold (new_CircuitBreaker ''slow-service'' 3 20000 0)
   \<and> state (fold onFailure [10, 20] (new_CircuitBreaker ''slow-service'' 3 20000 0)) = CLOSED
   \<and> failureCount (fold onFailure [10, 20] (new_CircuitBreaker ''slow-service'' 3 20000 0)) = 2
   \<and> state (fold onFailure [10, 20, 30] (new_CircuitBreaker ''slow-service'' 3 20000 0)) = OPEN
   \<and> nextAttempt (fold onFailure [10, 20, 30] (new_CircuitBreaker ''slow-service'' 3 20000 0)) = 20030
   \<and> failureCount (onSuccess (new_CircuitBreaker ''slow-service'' 3 20000 0)) = 0"
proof -
  let ?c = "new_CircuitBreaker ''slow-service'' 3 20000 0"
  have h: "state ?c = CLOSED" "failureCount ?c = 0" "1 \<le> failureThreshold ?c"
    by (simp_all add: new_CircuitBreaker_def)
  have n: "int (length [10, 20 :: int]) < failureThreshold ?c"
    "int (length [10, 20 :: int]) + 1 = failureThreshold ?c" "timeout ?c = 20000"
    by (simp_all add: new_CircuitBreaker_def)
  from closed_failures_open_at_threshold [OF h, of "[10, 20]" 30 ?c] h n
  show ?thesis by simp
qed

text \<open>
  C5. In the open state, a call made before \<open>nextAttempt\<close> is rejected with the
  circuit-open error: the wrapped function is not applied (the state it works on is
  returned as it was, whatever the function) and the circuit stays open. A call made
  at or after \<open>nextAttempt\<close> puts the circuit in the half-open state and applies
  the wrapped function.
\<close>

theorem open_circuit_rejects_until_nextAttempt:
  assumes "state c = OPEN"
  shows "(now < nextAttempt c \<longrightarrow>
            fst (cb_execute_begin now fn (c, w)) = Inl CircuitOpenError
            \<and> snd (snd (cb_execute_begin now fn (c, w))) = w
            \<and> state (fst (snd (cb_execute_begin now fn (c, w)))) = OPEN)
       \<and> (nextAttempt c \<le> now \<longrightarrow>
            fst (cb_execute_begin now fn (c, w)) = Inr (fst (fn w))
            \<and> snd (snd (cb_execute_begin now fn (c, w))) = snd (fn w)
            \<and> state (fst (snd (cb_execute_begin now fn (c, w)))) = HALF_OPEN)"
  using assms by (simp add: cb_execute_begin_def Let_def changeState_def)

text \<open>
  The witness wraps a function that counts its own invocations, on a breaker opened at
  time 30 with the timeout 20000 of the slow service.
\<close>

theorem open_circuit_rejects_until_nextAttempt_witness:
  "state (fold onFailure [10, 20, 30] (new_CircuitBreaker ''slow-service'' 3 20000 0)) = OPEN
   \<and> snd (snd (cb_execute_begin 20029 (\<lambda>n::nat. ((), Suc n))
         (fold onFailure [10, 20, 30] (new_CircuitBreaker ''slow-service'' 3 20000 0), 0))) = 0
   \<and> fst (cb_execute_begin 20029 (\<lambda>n::nat. ((), Suc n))
         (fold onFailure [10, 20, 30] (new_CircuitBreaker ''slow-service'' 3 20000 0), 0))
       = Inl CircuitOpenError
   \<and> snd (snd (cb_execute_begin 20030 (\<lambda>n::nat. ((), Suc n))
         (fold onFailure [10, 20, 30] (new_CircuitBreaker ''slow-service'' 3 20000 0), 0))) = 1
   \<and> state (fst (snd (cb_execute_begin 20030 (\<lambda>n::nat. ((), Suc n))
         (fold onFailure [10, 20, 30] (new_CircuitBreaker ''slow-service'' 3 20000 0), 0))))
       = HALF_OPEN"
proof -
  let ?c = "fold onFailure [10, 20, 30] (new_CircuitBreaker ''slow-service'' 3 20000 0)"
  have h: "state ?c = OPEN"
    by (simp add: new_CircuitBreaker_def onFailure_def Let_def changeState_def)
  have n: "nextAttempt ?c = 20030"
    by (simp add: new_CircuitBreaker_def onFailure_def Let_def changeState_def)
  from open_circuit_rejects_until_nextAttempt [OF h, of 20029 "\<lambda>n::nat. ((), Suc n)" 0]
    open_circuit_rejects_until_nextAttempt [OF h, of 20030 "\<lambda>n::nat. ((), Suc n)" 0] h n
  show ?thesis by simp
qed

section \<open>Properties of the bulkhead\<close>

text \<open>
  What holds of the counters on every schedule: \<^verbatim>\<open>activeRequests\<close> is the number of
  calls suspended in \<^verbatim>\<open>await fn()\<close>, so it is never negative, and the queue never
  grows beyond \<^verbatim>\<open>maxQueue\<close>.
\<close>

lemma length_remove_call:
  "map_of ps k = Some v \<Longrightarrow> int (length (remove_call k ps)) = int (length ps) - 1"
  by (induction ps) (auto split: if_splits)

lemma step_active_is_running:
  assumes "step e s = Some (out, s1)" and "activeRequests (bh s) = int (length (running s))"
  shows "activeRequests (bh s1) = int (length (running s1))"
proof (cases e)
  case (Call k now)
  with assms show ?thesis
    by (auto simp: call_def bh_execute_call_def Let_def split: if_splits)
next
  case (Resume now)
  with assms show ?thesis
    by (auto simp: bh_execute_resume_def split: list.splits)
next
  case (Settle k ok now)
  with assms show ?thesis
    by (auto simp: bh_execute_finish_def Let_def length_remove_call
        split: option.splits list.splits if_splits)
qed

lemma step_queue_bounded:
  assumes "step e s = Some (out, s1)"
    and "int (length (queuedRequests (bh s))) \<le> maxQueue (bh s)"
  shows "int (length (queuedRequests (bh s1))) \<le> maxQueue (bh s1)"
proof (cases e)
  case (Call k now)
  with assms show ?thesis
    by (auto simp: call_def bh_execute_call_def Let_def split: if_splits)
next
  case (Resume now)
  with assms show ?thesis
    by (auto simp: bh_execute_resume_def split: list.splits)
next
  case (Settle k ok now)
  with assms show ?thesis
    by (auto simp: bh_execute_finish_def Let_def
        split: option.splits list.splits if_splits)
qed

lemma run_active_nonneg_queue_bounded:
  assumes "run es s = Some (outs, s1)"
    and "activeRequests (bh s) = int (length (running s))"
    and "int (length (queuedRequests (bh s))) \<le> maxQueue (bh s)"
  shows "0 \<le> activeRequests (bh s1) \<and> activeRequests (bh s1) = int (length (running s1))
       \<and> int (length (queuedRequests (bh s1))) \<le> maxQueue (bh s1)"
  using assms
proof (induction es arbitrary: s outs)
  case Nil
  then show ?case by simp
next
  case (Cons e es)
  from Cons.prems(1) obtain out s2 outs2 where
    st: "step e s = Some (out, s2)" and rest: "run es s2 = Some (outs2, s1)"
    by (auto split: option.splits)
  from Cons.IH [OF rest step_active_is_running [OF st Cons.prems(2)]
      step_queue_bounded [OF st Cons.prems(3)]]
  show ?case .
qed

text \<open>
  The upper bound on \<^verbatim>\<open>activeRequests\<close> holds on the schedules in which no call enters
  while a woken caller still waits for its continuation.
\<close>

lemma step_active_woken_bounded:
  assumes "step e s = Some (out, s1)"
    and "(case e of Call k now \<Rightarrow> woken s = [] | Resume now \<Rightarrow> True | Settle k ok now \<Rightarrow> True)"
    and "activeRequests (bh s) + int (length (woken s)) \<le> maxConcurrent (bh s)"
  shows "activeRequests (bh s1) + int (length (woken s1)) \<le> maxConcurrent (bh s1)"
proof (cases e)
  case (Call k now)
  with assms show ?thesis
    by (auto simp: call_def bh_execute_call_def Let_def split: if_splits)
next
  case (Resume now)
  with assms show ?thesis
    by (auto simp: bh_execute_resume_def split: list.splits)
next
  case (Settle k ok now)
  with assms show ?thesis
    by (auto simp: bh_execute_finish_def Let_def
        split: option.splits list.splits if_splits)
qed

lemma active_bounded_when_calls_find_none_woken:
  assumes "run es s = Some (outs, s1)" and "calls_find_none_woken es s"
    and "activeRequests (bh s) + int (length (woken s)) \<le> maxConcurrent (bh s)"
  shows "activeRequests (bh s1) \<le> maxConcurrent (bh s1)"
proof -
  have "activeRequests (bh s1) + int (length (woken s1)) \<le> maxConcurrent (bh s1)"
    using assms
  proof (induction es arbitrary: s outs)
    case Nil
    then show ?case by simp
  next
    case (Cons e es)
    from Cons.prems(1) obtain out s2 outs2 where
      st: "step e s = Some (out, s2)" and rest: "run es s2 = Some (outs2, s1)"
      by (auto split: option.splits)
    from Cons.prems(2) st have
      here: "(case e of Call k now \<Rightarrow> woken s = [] | Resume now \<Rightarrow> True | Settle k ok now \<Rightarrow> True)"
      and later: "calls_find_none_woken es s2"
      by simp_all
    from Cons.IH [OF rest later step_active_woken_bounded [OF st here Cons.prems(3)]]
    show ?case .
  qed
  then show ?thesis by simp
qed

text \<open>The limits are those given to the constructor.\<close>

lemma step_limits:
  assumes "step e s = Some (out, s1)"
  shows "maxConcurrent (bh s1) = maxConcurrent (bh s) \<and> maxQueue (bh s1) = maxQueue (bh s)"
proof (cases e)
  case (Call k now)
  with assms show ?thesis
    by (auto simp: call_def bh_execute_call_def Let_def split: if_splits)
next
  case (Resume now)
  with assms show ?thesis
    by (auto simp: bh_execute_resume_def split: list.splits)
next
  case (Settle k ok now)
  with assms show ?thesis
    by (auto simp: bh_execute_finish_def Let_def
        split: option.splits list.splits if_splits)
qed

lemma run_limits:
  "run es s = Some (outs, s1) \<Longrightarrow>
   maxConcurrent (bh s1) = maxConcurrent (bh s) \<and> maxQueue (bh s1) = maxQueue (bh s)"
proof (induction es arbitrary: s outs)
  case Nil
  then show ?case by simp
next
  case (Cons e es)
  from Cons.prems obtain out s2 outs2 where
    st: "step e s = Some (out, s2)" and rest: "run es s2 = Some (outs2, s1)"
    by (auto split: option.splits)
  from Cons.IH [OF rest] step_limits [OF st] show ?case by simp
qed

text \<open>
  In the gateways every call enters \<^verbatim>\<open>execute\<close> from a route handler, in an event-loop
  callback of its own, and the class is not exported: the continuation of a woken caller,
  a microtask, has run before the next handler does. The sequences of calls of the
  program are therefore those of \<open>calls_find_none_woken\<close>.
\<close>

lemma reachable_counts_bounded:
  assumes "run es (new_system nm mc mq) = Some (outs, s)"
    and "calls_find_none_woken es (new_system nm mc mq)"
    and "0 \<le> mc" and "0 \<le> mq"
  shows "maxConcurrent (bh s) = mc" and "maxQueue (bh s) = mq"
    and "0 \<le> activeRequests (bh s)"
    and "activeRequests (bh s) \<le> maxConcurrent (bh s)"
    and "int (length (queuedRequests (bh s))) \<le> maxQueue (bh s)"
proof -
  let ?s0 = "new_system nm mc mq"
  have init: "activeRequests (bh ?s0) = int (length (running ?s0))"
    "int (length (queuedRequests (bh ?s0))) \<le> maxQueue (bh ?s0)"
    "activeRequests (bh ?s0) + int (length (woken ?s0)) \<le> maxConcurrent (bh ?s0)"
    "maxConcurrent (bh ?s0) = mc" "maxQueue (bh ?s0) = mq"
    using assms(3,4) by (simp_all add: new_system_def new_Bulkhead_def)
  from run_limits [OF assms(1)] init(4,5)
  show "maxConcurrent (bh s) = mc" and "maxQueue (bh s) = mq" by simp_all
  from run_active_nonneg_queue_bounded [OF assms(1) init(1,2)]
  show "0 \<le> activeRequests (bh s)"
    and "int (length (queuedRequests (bh s))) \<le> maxQueue (bh s)" by simp_all
  from active_bounded_when_calls_find_none_woken [OF assms(1,2) init(3)]
  show "activeRequests (bh s) \<le> maxConcurrent (bh s)" .
qed

text \<open>
  C1. After every sequence of calls of the program on one bulkhead, created with limits
  that are not negative, the active count is not negative and does not exceed
  \<^verbatim>\<open>maxConcurrent\<close>, and the queue is not longer than \<^verbatim>\<open>maxQueue\<close>. The sequence is
  any, so the bounds hold after each of its parts: they are never broken.
\<close>

theorem admission_counts_bounded:
  assumes "run es (new_system nm mc mq) = Some (outs, s)"
    and "calls_find_none_woken es (new_system nm mc mq)"
    and "0 \<le> mc" and "0 \<le> mq"
  shows "0 \<le> activeRequests (bh s)
       \<and> activeRequests (bh s) \<le> maxConcurrent (bh s)
       \<and> int (length (queuedRequests (bh s))) \<le> maxQueue (bh s)
       \<and> maxConcurrent (bh s) = mc \<and> maxQueue (bh s) = mq"
  using reachable_counts_bounded [OF assms] by simp

theorem admission_counts_bounded_witness:
  "run [Call 1 0, Call 2 0, Call 3 0, Call 4 0, Settle 1 True 500, Resume 500,
        Settle 2 False 501]
       (new_system ''slow-service'' 2 1)
     = Some ([Start 1, Start 2, Queue 3, Reject 4, Finish 1 True, Resumed 3, Finish 2 False],
         \<lparr>bh = \<lparr>bh_name = ''slow-service'', maxConcurrent = 2, maxQueue = 1,
               activeRequests = 1, queuedRequests = [],
               metrics = \<lparr>totalRequests = 4, successfulRequests = 1, failedRequests = 1,
                          rejectedRequests = 1, averageResponseTime = 500,
                          responseTimes = [500]\<rparr>\<rparr>,
           woken = [], running = [(3, 500)]\<rparr>)
   \<and> calls_find_none_woken
       [Call 1 0, Call 2 0, Call 3 0, Call 4 0, Settle 1 True 500, Resume 500,
        Settle 2 False 501]
       (new_system ''slow-service'' 2 1)
   \<and> (0::int) \<le> 1 \<and> (1::int) \<le> 2 \<and> int (length ([]::nat list)) \<le> 1"
proof -
  let ?es = "[Call 1 0, Call 2 0, Call 3 0, Call 4 0, Settle 1 True 500, Resume 500,
        Settle 2 False 501]"
  have r: "run ?es (new_system ''slow-service'' 2 1)
     = Some ([Start 1, Start 2, Queue 3, Reject 4, Finish 1 True, Resumed 3, Finish 2 False],
         \<lparr>bh = \<lparr>bh_name = ''slow-service'', maxConcurrent = 2, maxQueue = 1,
               activeRequests = 1, queuedRequests = [],
               metrics = \<lparr>totalRequests = 4, successfulRequests = 1, failedRequests = 1,
                          rejectedRequests = 1, averageResponseTime = 500,
                          responseTimes = [500]\<rparr>\<rparr>,
           woken = [], running = [(3, 500)]\<rparr>)"
    by code_simp
  have d: "calls_find_none_woken ?es (new_system ''slow-service'' 2 1)"
    by code_simp
  have c: "(0::int) \<le> 2" "(0::int) \<le> 1" by simp_all
  from admission_counts_bounded [OF r d c] r d
  show ?thesis by simp
qed

text \<open>
  The bound on the active count rests on that order of the calls. The class does not
  hand a released slot to the caller it wakes: the woken caller increments the count
  when it resumes, without a test. Were a call to enter between the two, as no route
  does, it would be admitted as well.
\<close>

lemma call_before_woken_caller_resumes_is_admitted:
  "run [Call 1 0, Call 2 0, Settle 1 True 5, Call 3 5, Resume 5] (new_system ''slow-service'' 1 1)
     = Some ([Start 1, Queue 2, Finish 1 True, Start 3, Resumed 2],
         \<lparr>bh = \<lparr>bh_name = ''slow-service'', maxConcurrent = 1, maxQueue = 1,
               activeRequests = 2, queuedRequests = [],
               metrics = \<lparr>totalRequests = 3, successfulRequests = 1, failedRequests = 0,
                          rejectedRequests = 0, averageResponseTime = 5, responseTimes = [5]\<rparr>\<rparr>,
           woken = [], running = [(3, 5), (2, 5)]\<rparr>)
   \<and> \<not> calls_find_none_woken
         [Call 1 0, Call 2 0, Settle 1 True 5, Call 3 5, Resume 5] (new_system ''slow-service'' 1 1)"
  by code_simp

text \<open>The three ways of a call, by the two tests of the code.\<close>

lemma bh_execute_call_cases:
  "(fst (bh_execute_call k b) = Rejected \<longleftrightarrow>
      maxConcurrent b \<le> activeRequests b \<and> maxQueue b \<le> int (length (queuedRequests b)))
   \<and> (fst (bh_execute_call k b) = Enqueued \<longleftrightarrow>
      maxConcurrent b \<le> activeRequests b \<and> int (length (queuedRequests b)) < maxQueue b)
   \<and> (fst (bh_execute_call k b) = Admitted \<longleftrightarrow> activeRequests b < maxConcurrent b)"
  by (auto simp: bh_execute_call_def Let_def)

text \<open>
  C2. In every state the program reaches, a call is rejected if and only if, at the
  instant of the call, \<^verbatim>\<open>activeRequests\<close> equals \<^verbatim>\<open>maxConcurrent\<close> and the length of
  the queue equals \<^verbatim>\<open>maxQueue\<close>; in every other state it is admitted at once
  (\<^verbatim>\<open>activeRequests\<close> below \<^verbatim>\<open>maxConcurrent\<close>) or queued (\<^verbatim>\<open>activeRequests\<close> equal to
  \<^verbatim>\<open>maxConcurrent\<close>, the queue shorter than \<^verbatim>\<open>maxQueue\<close>), never rejected.
\<close>

theorem rejected_iff_both_limits_reached:
  assumes "run es (new_system nm mc mq) = Some (outs, s)"
    and "calls_find_none_woken es (new_system nm mc mq)"
    and "0 \<le> mc" and "0 \<le> mq"
  shows "(fst (bh_execute_call k (bh s)) = Rejected \<longleftrightarrow>
            activeRequests (bh s) = maxConcurrent (bh s)
            \<and> int (length (queuedRequests (bh s))) = maxQueue (bh s))
       \<and> (\<not> (activeRequests (bh s) = maxConcurrent (bh s)
               \<and> int (length (queuedRequests (bh s))) = maxQueue (bh s)) \<longrightarrow>
            fst (bh_execute_call k (bh s)) = Admitted \<or> fst (bh_execute_call k (bh s)) = Enqueued)
       \<and> (fst (bh_execute_call k (bh s)) = Admitted \<longleftrightarrow>
            activeRequests (bh s) < maxConcurrent (bh s))
       \<and> (fst (bh_execute_call k (bh s)) = Enqueued \<longleftrightarrow>
            activeRequests (bh s) = maxConcurrent (bh s)
            \<and> int (length (queuedRequests (bh s))) < maxQueue (bh s))"
proof -
  note bounds = reachable_counts_bounded(4,5) [OF assms]
  note cases = bh_execute_call_cases [of k "bh s"]
  have rej: "fst (bh_execute_call k (bh s)) = Rejected \<longleftrightarrow>
            activeRequests (bh s) = maxConcurrent (bh s)
            \<and> int (length (queuedRequests (bh s))) = maxQueue (bh s)"
    using bounds cases by linarith
  have adm: "fst (bh_execute_call k (bh s)) = Admitted \<longleftrightarrow>
            activeRequests (bh s) < maxConcurrent (bh s)"
    using cases by blast
  have enq: "fst (bh_execute_call k (bh s)) = Enqueued \<longleftrightarrow>
            activeRequests (bh s) = maxConcurrent (bh s)
            \<and> int (length (queuedRequests (bh s))) < maxQueue (bh s)"
    using bounds cases by linarith
  have other: "fst (bh_execute_call k (bh s)) = Admitted \<or> fst (bh_execute_call k (bh s)) = Enqueued"
    if "\<not> (activeRequests (bh s) = maxConcurrent (bh s)
               \<and> int (length (queuedRequests (bh s))) = maxQueue (bh s))"
    using that rej by (cases "fst (bh_execute_call k (bh s))") simp_all
  from rej adm enq other show ?thesis by blast
qed

theorem rejected_iff_both_limits_reached_witness:
  "run [Call 1 0, Call 2 0] (new_system ''slow-service'' 1 1)
     = Some ([Start 1, Queue 2],
         \<lparr>bh = \<lparr>bh_name = ''slow-service'', maxConcurrent = 1, maxQueue = 1,
               activeRequests = 1, queuedRequests = [2],
               metrics = \<lparr>totalRequests = 2, successfulRequests = 0, failedRequests = 0,
                          rejectedRequests = 0, averageResponseTime = 0, responseTimes = []\<rparr>\<rparr>,
           woken = [], running = [(1, 0)]\<rparr>)
   \<and> calls_find_none_woken [Call 1 0, Call 2 0] (new_system ''slow-service'' 1 1)
   \<and> fst (bh_execute_call 3
         \<lparr>bh_name = ''slow-service'', maxConcurrent = 1, maxQueue = 1,
          activeRequests = 1, queuedRequests = [2],
          metrics = \<lparr>totalRequests = 2, successfulRequests = 0, failedRequests = 0,
                     rejectedRequests = 0, averageResponseTime = 0, responseTimes = []\<rparr>\<rparr>)
     = Rejected
   \<and> run [Call 1 0] (new_system ''slow-service'' 1 1)
     = Some ([Start 1],
         \<lparr>bh = \<lparr>bh_name = ''slow-service'', maxConcurrent = 1, maxQueue = 1,
               activeRequests = 1, queuedRequests = [],
               metrics = \<lparr>totalRequests = 1, successfulRequests = 0, failedRequests = 0,
                          rejectedRequests = 0, averageResponseTime = 0, responseTimes = []\<rparr>\<rparr>,
           woken = [], running = [(1, 0)]\<rparr>)
   \<and> fst (bh_execute_call 2
         \<lparr>bh_name = ''slow-service'', maxConcurrent = 1, maxQueue = 1,
          activeRequests = 1, queuedRequests = [],
          metrics = \<lparr>totalRequests = 1, successfulRequests = 0, failedRequests = 0,
                     rejectedRequests = 0, averageResponseTime = 0, responseTimes = []\<rparr>\<rparr>)
     = Enqueued"
proof -
  let ?full = "\<lparr>bh = \<lparr>bh_name = ''slow-service'', maxConcurrent = 1, maxQueue = 1,
               activeRequests = 1, queuedRequests = [2],
               metrics = \<lparr>totalRequests = 2, successfulRequests = 0, failedRequests = 0,
                          rejectedRequests = 0, averageResponseTime = 0, responseTimes = []\<rparr>\<rparr>,
           woken = [], running = [(1, 0)]\<rparr>"
  let ?busy = "\<lparr>bh = \<lparr>bh_name = ''slow-service'', maxConcurrent = 1, maxQueue = 1,
               activeRequests = 1, queuedRequests = [],
               metrics = \<lparr>totalRequests = 1, successfulRequests = 0, failedRequests = 0,
                          rejectedRequests = 0, averageResponseTime = 0, responseTimes = []\<rparr>\<rparr>,
           woken = [], running = [(1, 0)]\<rparr>"
  have r2: "run [Call 1 0, Call 2 0] (new_system ''slow-service'' 1 1) = Some ([Start 1, Queue 2], ?full)"
    by (simp add: new_system_def new_Bulkhead_def call_def bh_execute_call_def Let_def)
  have d2: "calls_find_none_woken [Call 1 0, Call 2 0] (new_system ''slow-service'' 1 1)"
    by (simp add: new_system_def new_Bulkhead_def call_def bh_execute_call_def Let_def)
  have r1: "run [Call 1 0] (new_system ''slow-service'' 1 1) = Some ([Start 1], ?busy)"
    by (simp add: new_system_def new_Bulkhead_def call_def bh_execute_call_def Let_def)
  have d1: "calls_find_none_woken [Call 1 0] (new_system ''slow-service'' 1 1)"
    by (simp add: new_system_def new_Bulkhead_def call_def bh_execute_call_def Let_def)
  have c: "(0::int) \<le> 1" by simp
  from rejected_iff_both_limits_reached [OF r2 d2 c c, of 3]
    rejected_iff_both_limits_reached [OF r1 d1 c c, of 2] r2 d2 r1
  show ?thesis by simp
qed

lemma run_resumed_then_waiting:
  "run es s = Some (outs, s1) \<Longrightarrow>
   resumed outs @ woken s1 @ queuedRequests (bh s1)
     = woken s @ queuedRequests (bh s) @ enqueued outs"
proof (induction es arbitrary: s outs)
  case Nil
  then show ?case by simp
next
  case (Cons e es)
  from Cons.prems obtain out s2 outs2 where
    st: "step e s = Some (out, s2)" and rest: "run es s2 = Some (outs2, s1)"
    and outs: "outs = out # outs2"
    by (auto split: option.splits)
  note ih = Cons.IH [OF rest]
  show ?case
  proof (cases e)
    case (Call k now)
    with st ih outs show ?thesis
      by (auto simp: call_def bh_execute_call_def Let_def split: if_splits)
  next
    case (Resume now)
    with st ih outs show ?thesis
      by (auto simp: bh_execute_resume_def split: list.splits)
  next
    case (Settle k ok now)
    with st ih outs show ?thesis
      by (auto simp: bh_execute_finish_def Let_def
          split: option.splits list.splits if_splits)
  qed
qed

text \<open>
  C3. Queued callers resume in the order in which they were queued: at every moment
  the callers resumed so far, then those woken whose continuation has not run, then
  those still in the queue, are the queued callers in their order of arrival; so the
  caller resumed in place \<open>j\<close> is the one queued in place \<open>j\<close>, and of two queued
  callers the earlier is never resumed after the later.
\<close>

theorem queued_callers_resume_in_arrival_order:
  assumes "run es (new_system nm mc mq) = Some (outs, s)"
  shows "resumed outs @ woken s @ queuedRequests (bh s) = enqueued outs
       \<and> (\<forall>j < length (resumed outs). resumed outs ! j = enqueued outs ! j)"
proof -
  from run_resumed_then_waiting [OF assms]
  have eq: "resumed outs @ woken s @ queuedRequests (bh s) = enqueued outs"
    by (simp add: new_system_def new_Bulkhead_def)
  have "resumed outs ! j = enqueued outs ! j" if "j < length (resumed outs)" for j
    using that nth_append [of "resumed outs" "woken s @ queuedRequests (bh s)" j] eq by simp
  with eq show ?thesis by blast
qed

theorem queued_callers_resume_in_arrival_order_witness:
  "run [Call 1 0, Call 2 1, Call 3 2, Settle 1 True 500, Resume 500, Settle 2 False 900, Resume 900]
       (new_system ''slow-service'' 1 2)
     = Some ([Start 1, Queue 2, Queue 3, Finish 1 True, Resumed 2, Finish 2 False, Resumed 3],
         \<lparr>bh = \<lparr>bh_name = ''slow-service'', maxConcurrent = 1, maxQueue = 2,
               activeRequests = 1, queuedRequests = [],
               metrics = \<lparr>totalRequests = 3, successfulRequests = 1, failedRequests = 1,
                          rejectedRequests = 0, averageResponseTime = 500,
                          responseTimes = [500]\<rparr>\<rparr>,
           woken = [], running = [(3, 900)]\<rparr>)
   \<and> resumed [Start 1, Queue 2, Queue 3, Finish 1 True, Resumed 2, Finish 2 False, Resumed 3]
       = enqueued [Start 1, Queue 2, Queue 3, Finish 1 True, Resumed 2, Finish 2 False, Resumed 3]
   \<and> resumed [Start 1, Queue 2, Queue 3, Finish 1 True, Resumed 2, Finish 2 False, Resumed 3] ! 1
       = enqueued [Start 1, Queue 2, Queue 3, Finish 1 True, Resumed 2, Finish 2 False, Resumed 3] ! 1"
proof -
  have r: "run [Call 1 0, Call 2 1, Call 3 2, Settle 1 True 500, Resume 500, Settle 2 False 900, Resume 900]
       (new_system ''slow-service'' 1 2)
     = Some ([Start 1, Queue 2, Queue 3, Finish 1 True, Resumed 2, Finish 2 False, Resumed 3],
         \<lparr>bh = \<lparr>bh_name = ''slow-service'', maxConcurrent = 1, maxQueue = 2,
               activeRequests = 1, queuedRequests = [],
               metrics = \<lparr>totalRequests = 3, successfulRequests = 1, failedRequests = 1,
                          rejectedRequests = 0, averageResponseTime = 500,
                          responseTimes = [500]\<rparr>\<rparr>,
           woken = [], running = [(3, 900)]\<rparr>)"
    by code_simp
  from queued_callers_resume_in_arrival_order [OF r] r
  show ?thesis by simp
qed

text \<open>
  C10. A call rejected by the bulkhead leaves \<^verbatim>\<open>activeRequests\<close> and the queue as they
  were, and changes the metrics in \<^verbatim>\<open>totalRequests\<close> and \<^verbatim>\<open>rejectedRequests\<close> only,
  each one more than before.
\<close>

theorem rejection_leaves_admission_counts_metrics:
  assumes "fst (bh_execute_call k b) = Rejected"
  shows "snd (bh_execute_call k b)
           = b\<lparr>metrics := (metrics b)\<lparr>totalRequests := totalRequests (metrics b) + 1,
                                     rejectedRequests := rejectedRequests (metrics b) + 1\<rparr>\<rparr>
       \<and> activeRequests (snd (bh_execute_call k b)) = activeRequests b
       \<and> queuedRequests (snd (bh_execute_call k b)) = queuedRequests b"
  using assms by (auto simp: bh_execute_call_def Let_def split: if_splits)

theorem rejection_leaves_admission_counts_metrics_witness:
  "fst (bh_execute_call 3
         ((new_Bulkhead ''slow-service'' 1 1)\<lparr>activeRequests := 1, queuedRequests := [2]\<rparr>))
     = Rejected
   \<and> snd (bh_execute_call 3
         ((new_Bulkhead ''slow-service'' 1 1)\<lparr>activeRequests := 1, queuedRequests := [2]\<rparr>))
     = \<lparr>bh_name = ''slow-service'', maxConcurrent = 1, maxQueue = 1,
        activeRequests = 1, queuedRequests = [2],
        metrics = \<lparr>totalRequests = 1, successfulRequests = 0, failedRequests = 0,
                   rejectedRequests = 1, averageResponseTime = 0, responseTimes = []\<rparr>\<rparr>"
proof -
  let ?full = "(new_Bulkhead ''slow-service'' 1 1)\<lparr>activeRequests := 1, queuedRequests := [2]\<rparr>"
  have h: "fst (bh_execute_call 3 ?full) = Rejected"
    by (simp add: bh_execute_call_def new_Bulkhead_def Let_def)
  from rejection_leaves_admission_counts_metrics [OF h] h
  show ?thesis by (simp add: new_Bulkhead_def)
qed

text \<open>
  The division of doubles: \<open>js_divide\<close> is within the rounding error of a double of the
  exact quotient: the relative error is at most \<open>1 / 2 ^ 53\<close>.
\<close>

lemma bit_length_bounds:
  "0 < x \<Longrightarrow> 2 ^ (bit_length x - 1) \<le> x \<and> x < 2 ^ bit_length x"
proof (induction x rule: bit_length.induct)
  case (1 n)
  show ?case
  proof (cases "n div 2 = 0")
    case True
    with "1.prems" have "n = 1" by presburger
    then show ?thesis by (simp add: bit_length.simps)
  next
    case False
    then have pos: "0 < n div 2" by simp
    from "1.IH" [OF _ pos] "1.prems"
    have ih: "2 ^ (bit_length (n div 2) - 1) \<le> n div 2" "n div 2 < 2 ^ bit_length (n div 2)"
      by simp_all
    have bl: "bit_length n = Suc (bit_length (n div 2))"
      using "1.prems" by (subst bit_length.simps) simp
    have blpos: "0 < bit_length (n div 2)"
      using pos by (subst bit_length.simps) simp
    then obtain j where j: "bit_length (n div 2) = Suc j" by (cases "bit_length (n div 2)") auto
    have "2 * 2 ^ j \<le> 2 * (n div 2)" using ih(1) j by simp
    also have "\<dots> \<le> n" by simp
    finally have lo: "2 ^ (bit_length n - 1) \<le> n" using bl j by simp
    have "n < 2 * (n div 2) + 2" by presburger
    also have "\<dots> \<le> 2 * 2 ^ bit_length (n div 2)" using ih(2) by simp
    finally have hi: "n < 2 ^ bit_length n" using bl by simp
    from lo hi show ?thesis by simp
  qed
qed

lemma round_half_even_close:
  assumes "0 < den"
  shows "\<bar>2 * (round_half_even num den * den) - 2 * num\<bar> \<le> den"
proof -
  define q where "q = num div den"
  define r where "r = num mod den"
  have n: "num = q * den + r" by (simp add: q_def r_def)
  have r: "0 \<le> r" "r < den" using assms by (simp_all add: r_def)
  have "round_half_even num den = q \<and> 2 * r \<le> den \<or> round_half_even num den = q + 1 \<and> den \<le> 2 * r"
    by (auto simp: round_half_even_def Let_def q_def r_def)
  then show ?thesis
  proof
    assume "round_half_even num den = q \<and> 2 * r \<le> den"
    then show ?thesis using n r by (simp add: algebra_simps)
  next
    assume "round_half_even num den = q + 1 \<and> den \<le> 2 * r"
    then show ?thesis using n r by (simp add: algebra_simps)
  qed
qed

lemma power_ratio_power_int:
  "(2::real) ^ nat k / 2 ^ nat (- k) = 2 powi k"
  by (cases "0 \<le> k") (simp_all add: power_int_def field_simps)

lemma quotient_exponent_below:
  fixes a :: int and n :: nat
  assumes "0 < a" and "0 < n"
  defines "d \<equiv> int (bit_length (nat a)) - int (bit_length n)"
  defines "e \<equiv> (if int n * 2 ^ nat d \<le> a * 2 ^ nat (- d) then d else d - 1)"
  shows "2 powi e \<le> real_of_int a / real n"
proof (cases "int n * 2 ^ nat d \<le> a * 2 ^ nat (- d)")
  case True
  then have "real_of_int (int n * 2 ^ nat d) \<le> real_of_int (a * 2 ^ nat (- d))"
    by (rule of_int_le_iff [THEN iffD2])
  then have "real n * 2 ^ nat d \<le> real_of_int a * 2 ^ nat (- d)" by simp
  then have "(2::real) ^ nat d / 2 ^ nat (- d) \<le> real_of_int a / real n"
    using assms(2) by (simp add: field_simps)
  then show ?thesis using True by (simp add: e_def power_ratio_power_int)
next
  case False
  then have e: "e = d - 1" by (simp add: e_def)
  have apos: "0 < nat a" using assms(1) by simp
  from bit_length_bounds [OF apos] have lo: "2 ^ (bit_length (nat a) - 1) \<le> nat a" by simp
  from bit_length_bounds [OF assms(2)] have hi: "n < 2 ^ bit_length n" by simp
  have la: "0 < bit_length (nat a)" using apos by (subst bit_length.simps) simp
  have lo': "(2::real) ^ (bit_length (nat a) - 1) \<le> real_of_int a"
  proof -
    have "real (2 ^ (bit_length (nat a) - 1)) \<le> real (nat a)" using lo by (rule of_nat_mono)
    then show ?thesis using assms(1) by simp
  qed
  have hi': "real n \<le> 2 ^ bit_length n"
  proof -
    have "real n \<le> real (2 ^ bit_length n)" using hi by (intro of_nat_mono) simp
    then show ?thesis by simp
  qed
  have "2 powi e = (2::real) ^ (bit_length (nat a) - 1) / 2 ^ bit_length n"
  proof -
    have "e = int (bit_length (nat a) - 1) - int (bit_length n)"
      using la by (simp add: e d_def)
    then show ?thesis by (simp add: power_int_diff)
  qed
  also have "\<dots> \<le> real_of_int a / 2 ^ bit_length n"
    using lo' by (simp add: divide_right_mono)
  also have "\<dots> \<le> real_of_int a / real n"
    using hi' assms by (simp add: frac_le)
  finally show ?thesis .
qed

lemma js_divide_nearest:
  assumes "s \<noteq> 0" and "0 < n"
  shows "\<bar>js_divide s n - real_of_int s / real n\<bar> \<le> \<bar>real_of_int s / real n\<bar> / 2 ^ 53"
proof -
  define a where "a = \<bar>s\<bar>"
  define d where "d = int (bit_length (nat a)) - int (bit_length n)"
  define e where "e = (if int n * 2 ^ nat d \<le> a * 2 ^ nat (- d) then d else d - 1)"
  define m where "m = round_half_even (a * 2 ^ nat (52 - e)) (int n * 2 ^ nat (e - 52))"
  define P :: real where "P = 2 ^ nat (52 - e)"
  define U :: real where "U = 2 ^ nat (e - 52)"
  define x where "x = real_of_int a / real n"
  have apos: "0 < a" using assms(1) by (simp add: a_def)
  have npos: "0 < real n" using assms(2) by simp
  have PU: "0 < P" "0 < U" by (simp_all add: P_def U_def)
  have xpos: "0 < x" using apos npos by (simp add: x_def)
  have val: "js_divide s n = real_of_int (sgn s) * (real_of_int m * U / P)"
    using assms by (simp add: js_divide_def Let_def a_def d_def e_def m_def P_def U_def)
  have quot: "real_of_int s / real n = real_of_int (sgn s) * x"
  proof -
    have "s = sgn s * a" by (simp add: a_def mult_sgn_abs)
    then have "real_of_int s = real_of_int (sgn s) * real_of_int a"
      by (metis of_int_mult)
    then show ?thesis by (simp add: x_def)
  qed
  have sg: "\<bar>real_of_int (sgn s)\<bar> = 1" using assms(1) by (simp add: sgn_if)
  have ratio: "U / P = 2 powi (e - 52)"
    using power_ratio_power_int [of "e - 52"] by (simp add: P_def U_def)
  have below: "2 powi e \<le> x"
    unfolding x_def e_def d_def by (rule quotient_exponent_below [OF apos assms(2)])
  have scale: "U / P \<le> x / 2 ^ 52"
  proof -
    have "U / P = 2 powi e / 2 ^ 52" by (simp add: ratio power_int_diff)
    also have "\<dots> \<le> x / 2 ^ 52" using below by (simp add: divide_right_mono)
    finally show ?thesis .
  qed
  have denpos: "0 < int n * 2 ^ nat (e - 52)" using assms(2) by simp
  from round_half_even_close [OF denpos, of "a * 2 ^ nat (52 - e)"]
  have "\<bar>2 * (m * (int n * 2 ^ nat (e - 52))) - 2 * (a * 2 ^ nat (52 - e))\<bar>
          \<le> int n * 2 ^ nat (e - 52)"
    by (simp add: m_def)
  then have "real_of_int \<bar>2 * (m * (int n * 2 ^ nat (e - 52))) - 2 * (a * 2 ^ nat (52 - e))\<bar>
          \<le> real_of_int (int n * 2 ^ nat (e - 52))"
    by (rule of_int_le_iff [THEN iffD2])
  then have close: "\<bar>2 * (real_of_int m * (real n * U)) - 2 * (real_of_int a * P)\<bar> \<le> real n * U"
    by (simp add: P_def U_def)
  have half: "\<bar>real_of_int m * U / P - x\<bar> \<le> U / P / 2"
  proof -
    have "real_of_int m * U / P - x
            = (2 * (real_of_int m * (real n * U)) - 2 * (real_of_int a * P)) / (2 * real n * P)"
      using npos PU by (simp add: x_def field_simps)
    then have "\<bar>real_of_int m * U / P - x\<bar>
            = \<bar>2 * (real_of_int m * (real n * U)) - 2 * (real_of_int a * P)\<bar> / (2 * real n * P)"
      using npos PU by (simp add: abs_mult)
    also have "\<dots> \<le> real n * U / (2 * real n * P)"
    proof (rule divide_right_mono [OF close])
      show "0 \<le> 2 * real n * P" using npos PU by simp
    qed
    also have "\<dots> = U / P / 2" using npos PU by (simp add: field_simps)
    finally show ?thesis .
  qed
  have "\<bar>js_divide s n - real_of_int s / real n\<bar>
          = \<bar>real_of_int (sgn s) * (real_of_int m * U / P - x)\<bar>"
    by (simp add: val quot algebra_simps)
  also have "\<dots> = \<bar>real_of_int m * U / P - x\<bar>"
    by (simp only: abs_mult sg mult_1)
  also have "\<dots> \<le> U / P / 2" by (rule half)
  also have "\<dots> \<le> x / 2 ^ 52 / 2" by (rule divide_right_mono [OF scale]) simp
  also have "\<dots> = \<bar>real_of_int s / real n\<bar> / 2 ^ 53"
    using xpos by (simp add: quot abs_mult sg)
  finally show ?thesis .
qed

lemma js_divide_close_to_quotient:
  assumes "0 < n"
  shows "\<bar>js_divide s n - real_of_int s / real n\<bar> \<le> \<bar>real_of_int s / real n\<bar> / 2 ^ 53"
proof (cases "s = 0")
  case True
  then show ?thesis by (simp add: js_divide_def)
next
  case False
  from js_divide_nearest [OF False assms] show ?thesis .
qed

lemma foldl_plus_sum_list: "foldl (+) a xs = a + sum_list (xs :: int list)"
  by (induction xs arbitrary: a) simp_all

text \<open>
  C9, as amended. A call that finishes with success adds its response time to the
  samples, sets the average to the sum of all samples divided by their number, which is
  their arithmetic mean as the double division of the code rounds it (a relative
  error of at most \<open>1 / 2 ^ 53\<close> from the exact mean), and increments
  \<^verbatim>\<open>successfulRequests\<close>; a call that finishes with a failure increments
  \<^verbatim>\<open>failedRequests\<close> and changes nothing else of the metrics: no sample is added and
  the average stays. Every call increments \<^verbatim>\<open>totalRequests\<close> on entry, and
  \<^verbatim>\<open>rejectedRequests\<close> exactly when it is rejected.
\<close>

theorem success_records_sample_failure_only_counts:
  "responseTimes (metrics (snd (bh_execute_finish True rt b))) = responseTimes (metrics b) @ [rt]
   \<and> averageResponseTime (metrics (snd (bh_execute_finish True rt b)))
       = js_divide (sum_list (responseTimes (metrics b) @ [rt]))
           (length (responseTimes (metrics b) @ [rt]))
   \<and> \<bar>averageResponseTime (metrics (snd (bh_execute_finish True rt b)))
        - real_of_int (sum_list (responseTimes (metrics b) @ [rt]))
            / real (length (responseTimes (metrics b) @ [rt]))\<bar>
       \<le> \<bar>real_of_int (sum_list (responseTimes (metrics b) @ [rt]))
            / real (length (responseTimes (metrics b) @ [rt]))\<bar> / 2 ^ 53
   \<and> successfulRequests (metrics (snd (bh_execute_finish True rt b)))
       = successfulRequests (metrics b) + 1
   \<and> metrics (snd (bh_execute_finish False rt b))
       = (metrics b)\<lparr>failedRequests := failedRequests (metrics b) + 1\<rparr>
   \<and> totalRequests (metrics (snd (bh_execute_call k b))) = totalRequests (metrics b) + 1
   \<and> rejectedRequests (metrics (snd (bh_execute_call k b)))
       = rejectedRequests (metrics b) + (if fst (bh_execute_call k b) = Rejected then 1 else 0)"
proof -
  let ?xs = "responseTimes (metrics b) @ [rt]"
  have avg: "averageResponseTime (metrics (snd (bh_execute_finish True rt b)))
               = js_divide (sum_list ?xs) (length ?xs)"
    by (auto simp: bh_execute_finish_def record_success_def Let_def foldl_plus_sum_list
        split: list.splits)
  have "0 < length ?xs" by simp
  from js_divide_close_to_quotient [OF this, of "sum_list ?xs"]
  have near: "\<bar>averageResponseTime (metrics (snd (bh_execute_finish True rt b)))
        - real_of_int (sum_list ?xs) / real (length ?xs)\<bar>
       \<le> \<bar>real_of_int (sum_list ?xs) / real (length ?xs)\<bar> / 2 ^ 53"
    by (simp only: avg)
  have rest: "responseTimes (metrics (snd (bh_execute_finish True rt b))) = ?xs"
    "successfulRequests (metrics (snd (bh_execute_finish True rt b)))
       = successfulRequests (metrics b) + 1"
    "metrics (snd (bh_execute_finish False rt b))
       = (metrics b)\<lparr>failedRequests := failedRequests (metrics b) + 1\<rparr>"
    "totalRequests (metrics (snd (bh_execute_call k b))) = totalRequests (metrics b) + 1"
    "rejectedRequests (metrics (snd (bh_execute_call k b)))
       = rejectedRequests (metrics b) + (if fst (bh_execute_call k b) = Rejected then 1 else 0)"
    by (auto simp: bh_execute_finish_def bh_execute_call_def record_success_def Let_def
        split: list.splits)
  from avg near rest show ?thesis by blast
qed

text \<open>
  The witness records the samples 1, 2 and 2, whose mean 5/3 is no double: the average
  stored is the nearest one, \<open>7505999378950827 / 2 ^ 52\<close>, which JavaScript prints as
  1.6666666666666667.
\<close>

theorem success_records_sample_failure_only_counts_witness:
  "metrics (snd (bh_execute_finish True 2
       (snd (bh_execute_finish True 2
          (snd (bh_execute_finish True 1 (new_Bulkhead ''slow-service'' 5 10)))))))
     = \<lparr>totalRequests = 0, successfulRequests = 3, failedRequests = 0, rejectedRequests = 0,
        averageResponseTime = 7505999378950827 / 4503599627370496, responseTimes = [1, 2, 2]\<rparr>
   \<and> metrics (snd (bh_execute_finish False 300
       (snd (bh_execute_finish True 100 (new_Bulkhead ''slow-service'' 5 10)))))
     = \<lparr>totalRequests = 0, successfulRequests = 1, failedRequests = 1, rejectedRequests = 0,
        averageResponseTime = 100, responseTimes = [100]\<rparr>"
proof -
  let ?b2 = "snd (bh_execute_finish True 2
          (snd (bh_execute_finish True 1 (new_Bulkhead ''slow-service'' 5 10))))"
  let ?b1 = "snd (bh_execute_finish True 100 (new_Bulkhead ''slow-service'' 5 10))"
  have m2: "metrics ?b2
     = \<lparr>totalRequests = 0, successfulRequests = 2, failedRequests = 0, rejectedRequests = 0,
        averageResponseTime = 3 / 2, responseTimes = [1, 2]\<rparr>"
    by code_simp
  have m1: "metrics ?b1
     = \<lparr>totalRequests = 0, successfulRequests = 1, failedRequests = 0, rejectedRequests = 0,
        averageResponseTime = 100, responseTimes = [100]\<rparr>"
    by code_simp
  have v: "js_divide (sum_list ([1, 2] @ [2])) (length ([1, 2] @ [2::int]))
             = 7505999378950827 / 4503599627370496"
    by code_simp
  have rest: "totalRequests (metrics (snd (bh_execute_finish True 2 ?b2))) = 0"
    "failedRequests (metrics (snd (bh_execute_finish True 2 ?b2))) = 0"
    "rejectedRequests (metrics (snd (bh_execute_finish True 2 ?b2))) = 0"
    by (simp_all add: bh_execute_finish_def record_success_def new_Bulkhead_def Let_def)
  have mean: "averageResponseTime (metrics (snd (bh_execute_finish True 2 ?b2)))
                = 7505999378950827 / 4503599627370496"
    using success_records_sample_failure_only_counts [of 2 ?b2 0] v by (simp only: m2 metrics.simps)
  from success_records_sample_failure_only_counts [of 2 ?b2 0]
    success_records_sample_failure_only_counts [of 300 ?b1 0] m2 m1 mean rest
  show ?thesis by (simp add: metrics.equality)
qed

text \<open>
  C9 as stated fails for a call that finishes with a failure: no response time is
  recorded for it.
\<close>

theorem failed_call_records_no_sample:
  "run [Call 1 0, Settle 1 False 7] (new_system ''slow-service'' 5 10)
     = Some ([Start 1, Finish 1 False],
         \<lparr>bh = \<lparr>bh_name = ''slow-service'', maxConcurrent = 5, maxQueue = 10,
               activeRequests = 0, queuedRequests = [],
               metrics = \<lparr>totalRequests = 1, successfulRequests = 0, failedRequests = 1,
                          rejectedRequests = 0, averageResponseTime = 0, responseTimes = []\<rparr>\<rparr>,
           woken = [], running = []\<rparr>)"
  by (simp add: new_system_def new_Bulkhead_def call_def bh_execute_call_def
      bh_execute_finish_def bh_execute_resume_def record_success_def Let_def)

section \<open>Properties of the gateway\<close>

text \<open>
  C7. When the breaker rejects a request with the circuit-open error, the wrapped call
  is not made and the bulkhead is not touched: the request changes the two counters
  \<^verbatim>\<open>totalAttempts\<close> and \<^verbatim>\<open>totalRejections\<close> of the breaker and nothing else, so the
  bulkhead's \<^verbatim>\<open>activeRequests\<close>, queue and metrics and the calls in flight are as
  before.
\<close>

theorem circuit_open_rejection_leaves_bulkhead:
  assumes "state (breaker g) = OPEN" and "now < nextAttempt (breaker g)"
  shows "gw_step (Request k now) g
           = Some (CircuitOpen,
               g\<lparr>breaker := (breaker g)\<lparr>cb_metrics := (cb_metrics (breaker g))
                    \<lparr>totalAttempts := totalAttempts (cb_metrics (breaker g)) + 1,
                     totalRejections := totalRejections (cb_metrics (breaker g)) + 1\<rparr>\<rparr>\<rparr>)
       \<and> map_option (pool \<circ> snd) (gw_step (Request k now) g) = Some (pool g)
       \<and> map_option (settled \<circ> snd) (gw_step (Request k now) g) = Some (settled g)"
  using assms by (simp add: cb_execute_begin_def Let_def)

theorem circuit_open_rejection_leaves_bulkhead_witness:
  "state (breaker (new_gateway
       (fold onFailure [10, 20, 30] (new_CircuitBreaker ''slow-service'' 3 20000 0))
       (new_Bulkhead ''slow-service'' 5 10))) = OPEN
   \<and> 20029 < nextAttempt (breaker (new_gateway
       (fold onFailure [10, 20, 30] (new_CircuitBreaker ''slow-service'' 3 20000 0))
       (new_Bulkhead ''slow-service'' 5 10)))
   \<and> map_option fst (gw_step (Request 7 20029) (new_gateway
       (fold onFailure [10, 20, 30] (new_CircuitBreaker ''slow-service'' 3 20000 0))
       (new_Bulkhead ''slow-service'' 5 10))) = Some CircuitOpen
   \<and> map_option (pool \<circ> snd) (gw_step (Request 7 20029) (new_gateway
       (fold onFailure [10, 20, 30] (new_CircuitBreaker ''slow-service'' 3 20000 0))
       (new_Bulkhead ''slow-service'' 5 10)))
     = Some \<lparr>bh = new_Bulkhead ''slow-service'' 5 10, woken = [], running = []\<rparr>"
proof -
  let ?g = "new_gateway
       (fold onFailure [10, 20, 30] (new_CircuitBreaker ''slow-service'' 3 20000 0))
       (new_Bulkhead ''slow-service'' 5 10)"
  have h: "state (breaker ?g) = OPEN" "20029 < nextAttempt (breaker ?g)"
    by (simp_all add: new_gateway_def new_CircuitBreaker_def onFailure_def Let_def changeState_def)
  have p: "pool ?g = \<lparr>bh = new_Bulkhead ''slow-service'' 5 10, woken = [], running = []\<rparr>"
    by (simp add: new_gateway_def)
  from circuit_open_rejection_leaves_bulkhead [OF h, of 7] h p
  show ?thesis by simp
qed

lemma map_of_append_fresh:
  "k \<notin> fst ` set ps \<Longrightarrow> map_of (ps @ [(k, v)]) k = Some v"
  by (induction ps) auto

lemma request_rejected_by_bulkhead:
  assumes "\<not> (state (breaker g) = OPEN \<and> now < nextAttempt (breaker g))"
    and "fst (bh_execute_call k (bh (pool g))) = Rejected"
  shows "\<exists>g1. gw_step (Request k now) g = Some (Passed (Reject k), g1)
           \<and> failureCount (breaker g1) = failureCount (breaker g)
           \<and> settled g1 = settled g @ [(k, False)]"
  using assms
  by (cases "bh_execute_call k (bh (pool g))")
     (auto simp: cb_execute_begin_def Let_def call_def changeState_def)

lemma outcome_failure_counts:
  assumes "map_of (settled g) k = Some False"
  shows "\<exists>g1. gw_step (Outcome k now) g = Some (Recorded False, g1)
           \<and> failureCount (breaker g1) = failureCount (breaker g) + 1"
  using assms by (simp add: cb_execute_end_def onFailure_def Let_def changeState_def)

lemma upstream_settles:
  assumes "map_of (running (pool g)) k = Some st"
  shows "\<exists>g1. gw_step (Upstream k ok now) g = Some (Passed (Finish k ok), g1)
           \<and> breaker g1 = breaker g \<and> settled g1 = settled g @ [(k, ok)]"
  using assms by (auto split: prod.splits)

text \<open>
  C8, as amended. The outcome of an attempt that was allowed to run and failed (an
  upstream failure or timeout) increments the breaker's \<^verbatim>\<open>failureCount\<close>, and so
  does a rejection by the bulkhead at capacity: it reaches the breaker as a rejected
  promise of the wrapped function and is recorded as a failure, when the breaker's
  continuation runs. Only a request the breaker itself rejects while open leaves
  \<^verbatim>\<open>failureCount\<close> as it was, and no outcome is pending for it.
\<close>

theorem breaker_counts_every_rejected_promise:
  assumes "k \<notin> fst ` set (settled g)"
  shows "(\<not> (state (breaker g) = OPEN \<and> now < nextAttempt (breaker g))
          \<and> fst (bh_execute_call k (bh (pool g))) = Rejected \<longrightarrow>
            map_option (failureCount \<circ> breaker \<circ> snd) (gw_run [Request k now, Outcome k later] g)
              = Some (failureCount (breaker g) + 1))
       \<and> (map_of (running (pool g)) k \<noteq> None \<longrightarrow>
            map_option (failureCount \<circ> breaker \<circ> snd) (gw_run [Upstream k False now, Outcome k later] g)
              = Some (failureCount (breaker g) + 1))
       \<and> (state (breaker g) = OPEN \<and> now < nextAttempt (breaker g) \<longrightarrow>
            map_option (failureCount \<circ> breaker \<circ> snd) (gw_step (Request k now) g)
              = Some (failureCount (breaker g))
            \<and> map_option (settled \<circ> snd) (gw_step (Request k now) g) = Some (settled g))"
proof (intro conjI impI)
  assume a: "\<not> (state (breaker g) = OPEN \<and> now < nextAttempt (breaker g))
          \<and> fst (bh_execute_call k (bh (pool g))) = Rejected"
  then obtain g1 where g1: "gw_step (Request k now) g = Some (Passed (Reject k), g1)"
    "failureCount (breaker g1) = failureCount (breaker g)"
    "settled g1 = settled g @ [(k, False)]"
    using request_rejected_by_bulkhead by blast
  have "map_of (settled g1) k = Some False"
    using g1(3) map_of_append_fresh [OF assms] by simp
  then obtain g2 where g2: "gw_step (Outcome k later) g1 = Some (Recorded False, g2)"
    "failureCount (breaker g2) = failureCount (breaker g1) + 1"
    using outcome_failure_counts by blast
  show "map_option (failureCount \<circ> breaker \<circ> snd) (gw_run [Request k now, Outcome k later] g)
              = Some (failureCount (breaker g) + 1)"
    using g1 g2 by simp
next
  assume "map_of (running (pool g)) k \<noteq> None"
  then obtain st where "map_of (running (pool g)) k = Some st" by blast
  then obtain g1 where g1: "gw_step (Upstream k False now) g = Some (Passed (Finish k False), g1)"
    "breaker g1 = breaker g" "settled g1 = settled g @ [(k, False)]"
    using upstream_settles by blast
  have "map_of (settled g1) k = Some False"
    using g1(3) map_of_append_fresh [OF assms] by simp
  then obtain g2 where g2: "gw_step (Outcome k later) g1 = Some (Recorded False, g2)"
    "failureCount (breaker g2) = failureCount (breaker g1) + 1"
    using outcome_failure_counts by blast
  show "map_option (failureCount \<circ> breaker \<circ> snd) (gw_run [Upstream k False now, Outcome k later] g)
              = Some (failureCount (breaker g) + 1)"
    using g1 g2 by simp
next
  assume a: "state (breaker g) = OPEN \<and> now < nextAttempt (breaker g)"
  then show "map_option (failureCount \<circ> breaker \<circ> snd) (gw_step (Request k now) g)
              = Some (failureCount (breaker g))"
    by (simp add: cb_execute_begin_def Let_def)
  from a show "map_option (settled \<circ> snd) (gw_step (Request k now) g) = Some (settled g)"
    by (simp add: cb_execute_begin_def Let_def)
qed

theorem breaker_counts_every_rejected_promise_witness:
  "fst (bh_execute_call 16
      ((new_Bulkhead ''slow-service'' 5 10)
         \<lparr>activeRequests := 5, queuedRequests := [6, 7, 8, 9, 10, 11, 12, 13, 14, 15]\<rparr>))
     = Rejected
   \<and> map_option (failureCount \<circ> breaker \<circ> snd)
       (gw_run [Request 16 0, Outcome 16 1]
          (new_gateway (new_CircuitBreaker ''slow-service'' 3 20000 0)
             ((new_Bulkhead ''slow-service'' 5 10)
                \<lparr>activeRequests := 5, queuedRequests := [6, 7, 8, 9, 10, 11, 12, 13, 14, 15]\<rparr>)))
     = Some 1
   \<and> map_option (failureCount \<circ> breaker \<circ> snd)
       (gw_run [Upstream 1 False 6000, Outcome 1 6001]
          ((new_gateway (new_CircuitBreaker ''slow-service'' 3 20000 0)
              (new_Bulkhead ''slow-service'' 5 10))
             \<lparr>pool := \<lparr>bh = (new_Bulkhead ''slow-service'' 5 10)\<lparr>activeRequests := 1\<rparr>,
                       woken = [], running = [(1, 0)]\<rparr>\<rparr>))
     = Some 1
   \<and> map_option (failureCount \<circ> breaker \<circ> snd)
       (gw_step (Request 7 20029)
          (new_gateway (fold onFailure [10, 20, 30] (new_CircuitBreaker ''slow-service'' 3 20000 0))
             (new_Bulkhead ''slow-service'' 5 10)))
     = Some 3"
proof -
  let ?busy = "(new_gateway (new_CircuitBreaker ''slow-service'' 3 20000 0)
             (new_Bulkhead ''slow-service'' 5 10))
            \<lparr>pool := \<lparr>bh = (new_Bulkhead ''slow-service'' 5 10)\<lparr>activeRequests := 1\<rparr>,
                      woken = [], running = [(1, 0)]\<rparr>\<rparr>"
  have busy: "1 \<notin> fst ` set (settled ?busy)" "map_of (running (pool ?busy)) 1 \<noteq> None"
    "failureCount (breaker ?busy) = 0"
    by (simp_all add: new_gateway_def new_CircuitBreaker_def)
  let ?full = "new_gateway (new_CircuitBreaker ''slow-service'' 3 20000 0)
             ((new_Bulkhead ''slow-service'' 5 10)
                \<lparr>activeRequests := 5, queuedRequests := [6, 7, 8, 9, 10, 11, 12, 13, 14, 15]\<rparr>)"
  let ?opened = "new_gateway (fold onFailure [10, 20, 30] (new_CircuitBreaker ''slow-service'' 3 20000 0))
             (new_Bulkhead ''slow-service'' 5 10)"
  have fresh: "16 \<notin> fst ` set (settled ?full)" "7 \<notin> fst ` set (settled ?opened)"
    by (simp_all add: new_gateway_def)
  have passes: "\<not> (state (breaker ?full) = OPEN \<and> 0 < nextAttempt (breaker ?full))"
    by (simp add: new_gateway_def new_CircuitBreaker_def)
  have rejected: "fst (bh_execute_call 16 (bh (pool ?full))) = Rejected"
    by (simp add: new_gateway_def new_Bulkhead_def bh_execute_call_def Let_def)
  have count: "failureCount (breaker ?full) = 0" "failureCount (breaker ?opened) = 3"
    by (simp_all add: new_gateway_def new_CircuitBreaker_def onFailure_def Let_def changeState_def)
  have opened: "state (breaker ?opened) = OPEN \<and> 20029 < nextAttempt (breaker ?opened)"
    by (simp add: new_gateway_def new_CircuitBreaker_def onFailure_def Let_def changeState_def)
  have full: "bh (pool ?full) = (new_Bulkhead ''slow-service'' 5 10)
                \<lparr>activeRequests := 5, queuedRequests := [6, 7, 8, 9, 10, 11, 12, 13, 14, 15]\<rparr>"
    by (simp add: new_gateway_def)
  from breaker_counts_every_rejected_promise [OF fresh(1), of 0 1]
    breaker_counts_every_rejected_promise [OF busy(1), of 6000 6001]
    breaker_counts_every_rejected_promise [OF fresh(2), of 20029 0]
    passes rejected count opened full busy(2,3)
  show ?thesis by simp
qed

text \<open>
  C8 as stated fails on the slow service's own instances: of sixteen requests made
  together, five are admitted, ten queued and the sixteenth is rejected by the bulkhead;
  the breaker records that rejection as a failure.
\<close>

theorem bulkhead_rejection_counted_as_failure:
  "gw_run [Request 1 0, Request 2 0, Request 3 0, Request 4 0, Request 5 0, Request 6 0,
           Request 7 0, Request 8 0, Request 9 0, Request 10 0, Request 11 0, Request 12 0,
           Request 13 0, Request 14 0, Request 15 0, Request 16 0, Outcome 16 1]
      (slow_gateway 0)
     = Some ([Passed (Start 1), Passed (Start 2), Passed (Start 3), Passed (Start 4),
              Passed (Start 5), Passed (Queue 6), Passed (Queue 7), Passed (Queue 8),
              Passed (Queue 9), Passed (Queue 10), Passed (Queue 11), Passed (Queue 12),
              Passed (Queue 13), Passed (Queue 14), Passed (Queue 15), Passed (Reject 16),
              Recorded False],
         \<lparr>breaker =
            \<lparr>cb_name = ''slow-service'', state = CLOSED, failureCount = 1, failureThreshold = 3,
             nextAttempt = 0, timeout = 20000, successCount = 0,
             cb_metrics = \<lparr>totalAttempts = 16, totalFailures = 1, totalRejections = 0,
                           stateChanges = []\<rparr>\<rparr>,
          pool =
            \<lparr>bh = \<lparr>bh_name = ''slow-service'', maxConcurrent = 5, maxQueue = 10,
                   activeRequests = 5, queuedRequests = [6, 7, 8, 9, 10, 11, 12, 13, 14, 15],
                   metrics = \<lparr>totalRequests = 16, successfulRequests = 0, failedRequests = 0,
                              rejectedRequests = 1, averageResponseTime = 0,
                              responseTimes = []\<rparr>\<rparr>,
             woken = [], running = [(1, 0), (2, 0), (3, 0), (4, 0), (5, 0)]\<rparr>,
          settled = []\<rparr>)"
  by (simp add: slow_gateway_def new_gateway_def new_CircuitBreaker_def new_Bulkhead_def
      cb_execute_begin_def cb_execute_end_def onFailure_def changeState_def
      call_def bh_execute_call_def Let_def)

text \<open>
  What the two handlers of a trial outcome do in the half-open state: a success closes
  the circuit; a failure reopens it when the incremented count reaches the threshold,
  and otherwise leaves it half-open.
\<close>

lemma half_open_trial_outcomes:
  assumes "state c = HALF_OPEN"
  shows "state (onSuccess c) = CLOSED \<and> failureCount (onSuccess c) = 0
       \<and> (failureThreshold c \<le> failureCount c + 1 \<longrightarrow>
            state (onFailure now c) = OPEN \<and> nextAttempt (onFailure now c) = now + timeout c)
       \<and> (failureCount c + 1 < failureThreshold c \<longrightarrow>
            state (onFailure now c) = HALF_OPEN \<and> nextAttempt (onFailure now c) = nextAttempt c)"
  using assms by (simp add: onSuccess_def onFailure_def changeState_def Let_def)

text \<open>
  C6. In the half-open state a successful trial closes the circuit and a failed trial
  reopens it with a new \<open>nextAttempt\<close>. The second part fails on the code: on the slow
  service's instances, two requests fail; requests 3 and 4 are then in flight together;
  request 3 fails and opens the circuit; request 4 succeeds afterwards and
  \<open>onSuccess\<close> resets \<open>failureCount\<close> to 0 while the circuit is open; after the
  timeout request 5 is let through as the trial, in the half-open state; it fails, and
  since the count, now 1, is below the threshold, the circuit stays half-open and
  \<open>nextAttempt\<close> is not set again.
\<close>

theorem failed_trial_stays_half_open_after_late_success:
  "gw_run [Request 1 0, Upstream 1 False 5, Outcome 1 5,
           Request 2 10, Upstream 2 False 15, Outcome 2 15,
           Request 3 20, Request 4 21, Upstream 3 False 30, Outcome 3 30,
           Upstream 4 True 40, Outcome 4 40,
           Request 5 20030]
      (slow_gateway 0)
     = Some ([Passed (Start 1), Passed (Finish 1 False), Recorded False,
              Passed (Start 2), Passed (Finish 2 False), Recorded False,
              Passed (Start 3), Passed (Start 4), Passed (Finish 3 False), Recorded False,
              Passed (Finish 4 True), Recorded True,
              Passed (Start 5)],
         \<lparr>breaker =
            \<lparr>cb_name = ''slow-service'', state = HALF_OPEN, failureCount = 0, failureThreshold = 3,
             nextAttempt = 20030, timeout = 20000, successCount = 0,
             cb_metrics = \<lparr>totalAttempts = 5, totalFailures = 3, totalRejections = 0,
                           stateChanges = [OPEN, HALF_OPEN]\<rparr>\<rparr>,
          pool =
            \<lparr>bh = \<lparr>bh_name = ''slow-service'', maxConcurrent = 5, maxQueue = 10,
                   activeRequests = 1, queuedRequests = [],
                   metrics = \<lparr>totalRequests = 5, successfulRequests = 1, failedRequests = 3,
                              rejectedRequests = 0, averageResponseTime = 19,
                              responseTimes = [19]\<rparr>\<rparr>,
             woken = [], running = [(5, 20030)]\<rparr>,
          settled = []\<rparr>)
   \<and> gw_run [Request 1 0, Upstream 1 False 5, Outcome 1 5,
           Request 2 10, Upstream 2 False 15, Outcome 2 15,
           Request 3 20, Request 4 21, Upstream 3 False 30, Outcome 3 30,
           Upstream 4 True 40, Outcome 4 40,
           Request 5 20030, Upstream 5 False 20040, Outcome 5 20041]
      (slow_gateway 0)
     = Some ([Passed (Start 1), Passed (Finish 1 False), Recorded False,
              Passed (Start 2), Passed (Finish 2 False), Recorded False,
              Passed (Start 3), Passed (Start 4), Passed (Finish 3 False), Recorded False,
              Passed (Finish 4 True), Recorded True,
              Passed (Start 5), Passed (Finish 5 False), Recorded False],
         \<lparr>breaker =
            \<lparr>cb_name = ''slow-service'', state = HALF_OPEN, failureCount = 1, failureThreshold = 3,
             nextAttempt = 20030, timeout = 20000, successCount = 0,
             cb_metrics = \<lparr>totalAttempts = 5, totalFailures = 4, totalRejections = 0,
                           stateChanges = [OPEN, HALF_OPEN]\<rparr>\<rparr>,
          pool =
            \<lparr>bh = \<lparr>bh_name = ''slow-service'', maxConcurrent = 5, maxQueue = 10,
                   activeRequests = 0, queuedRequests = [],
                   metrics = \<lparr>totalRequests = 5, successfulRequests = 1, failedRequests = 4,
                              rejectedRequests = 0, averageResponseTime = 19,
                              responseTimes = [19]\<rparr>\<rparr>,
             woken = [], running = []\<rparr>,
          settled = []\<rparr>)"
  by code_simp

end
